theory Spec2Isabelle
  imports Complex_Main "HOL-Library.AList"
begin

section \<open>Data model of tic\_tac\_toe.py\<close>

text \<open>
  A cell of the board is a Python string: \<open>" "\<close> for an empty cell, \<open>"X"\<close> and \<open>"O"\<close>
  for the two marks. The board is a Python list of cells. An encoded state is a tuple of
  the labels \<open>"P"\<close> (the acting player), \<open>"E"\<close> (the opponent) and \<open>"_"\<close> (empty).
  A Python float is the real number it denotes (the finite doubles); comparing floats
  is comparing these numbers.
\<close>

type_synonym cell = string
type_synonym board = "cell list"
type_synonym player = string
type_synonym state = "string list"
type_synonym action = nat

text \<open>
  A key of the value table is an encoded state; \<open>train\<close> also passes Python's \<open>None\<close>
  as \<open>next_state\<close>, which is the key \<open>None\<close> here.
\<close>

type_synonym key = "state option"

text \<open>
  Python dictionaries keep their keys in insertion order: an association list, read with
  \<open>map_of\<close> and written with \<open>AList.update\<close> (which overwrites a present key in place
  and appends an absent one).
\<close>

type_synonym values_dict = "(action \<times> real) list"
type_synonym table = "(key \<times> values_dict) list"

datatype py_error = IndexError | ValueError | UnpicklingError

text \<open>
  The sum, difference and product of two floats are rounded by the interpreter. The
  rounded operations \<open>+\<close>, \<open>-\<close> and \<open>*\<close> on floats are not part of the program: they
  are parameters of the model, and nothing is assumed of them.
\<close>

record float_ops =
  fadd :: "real \<Rightarrow> real \<Rightarrow> real"
  fsub :: "real \<Rightarrow> real \<Rightarrow> real"
  fmul :: "real \<Rightarrow> real \<Rightarrow> real"

record agent =
  q :: table
  alpha :: real
  gamma :: real
  epsilon :: real

section \<open>Board and rules\<close>

definition WIN_LINES :: "(nat \<times> nat \<times> nat) list" where
  "WIN_LINES =
     [(0, 1, 2), (3, 4, 5), (6, 7, 8), (0, 3, 6), (1, 4, 7), (2, 5, 8), (0, 4, 8), (2, 4, 6)]"

text \<open>\<open>[i for i, v in enumerate(board) if v == " "]\<close>\<close>

definition empty_cells :: "board \<Rightarrow> action list" where
  "empty_cells board = map fst (filter (\<lambda>(i, v). v = '' '') (enumerate 0 board))"

text \<open>\<open>board[i]\<close> for a non-negative index: out of range raises \<open>IndexError\<close>.\<close>

definition get_cell :: "board \<Rightarrow> nat \<Rightarrow> py_error + cell" where
  "get_cell board i = (if i < length board then Inr (board ! i) else Inl IndexError)"

text \<open>
  The test of one line, \<open>board[a] != " " and board[a] == board[b] == board[c]\<close>, in
  Python's order of evaluation: \<open>and\<close> and the chained comparison short-circuit.
\<close>

fun line_test :: "board \<Rightarrow> nat \<times> nat \<times> nat \<Rightarrow> py_error + bool" where
  "line_test board (a, b, c) =
     (case get_cell board a of
        Inl e \<Rightarrow> Inl e
      | Inr x \<Rightarrow>
          if x = '' '' then Inr False
          else (case get_cell board b of
                  Inl e \<Rightarrow> Inl e
                | Inr y \<Rightarrow>
                    if x \<noteq> y then Inr False
                    else (case get_cell board c of
                            Inl e \<Rightarrow> Inl e
                          | Inr z \<Rightarrow> Inr (y = z))))"

fun check_lines :: "board \<Rightarrow> (nat \<times> nat \<times> nat) list \<Rightarrow> py_error + cell option" where
  "check_lines board [] = Inr None"
| "check_lines board (l # ls) =
     (case line_test board l of
        Inl e \<Rightarrow> Inl e
      | Inr True \<Rightarrow> (case get_cell board (fst l) of Inl e \<Rightarrow> Inl e | Inr x \<Rightarrow> Inr (Some x))
      | Inr False \<Rightarrow> check_lines board ls)"

definition check_winner :: "board \<Rightarrow> py_error + cell option" where
  "check_winner board = check_lines board WIN_LINES"

text \<open>\<open>all(v != " " for v in board)\<close>\<close>

definition is_full :: "board \<Rightarrow> bool" where
  "is_full board = list_all (\<lambda>v. v \<noteq> '' '') board"

section \<open>State encoder\<close>

definition encode_state :: "board \<Rightarrow> player \<Rightarrow> state" where
  "encode_state board player =
     (let opponent = (if player = ''X'' then ''O'' else ''X'')
      in map (\<lambda>v. if v = player then ''P'' else if v = opponent then ''E'' else ''_'') board)"

text \<open>The relabelling the specification speaks of: Self and Enemy exchanged, Empty kept.\<close>

definition swap_labels :: "string \<Rightarrow> string" where
  "swap_labels l = (if l = ''P'' then ''E'' else if l = ''E'' then ''P'' else l)"

text \<open>A line of the board all of whose cells hold the mark \<open>m\<close>.\<close>

definition line_won_by :: "board \<Rightarrow> cell \<Rightarrow> nat \<times> nat \<times> nat \<Rightarrow> bool" where
  "line_won_by board m l =
     (case l of (a, b, c) \<Rightarrow> m \<noteq> '' '' \<and> board ! a = m \<and> board ! b = m \<and> board ! c = m)"

section \<open>Dictionary operations of the value table\<close>

text \<open>\<open>d.get(k, default)\<close>\<close>

definition dict_get :: "('k \<times> 'v) list \<Rightarrow> 'k \<Rightarrow> 'v \<Rightarrow> 'v" where
  "dict_get d k dflt = (case map_of d k of None \<Rightarrow> dflt | Some v \<Rightarrow> v)"

text \<open>
  \<open>self.q[k]\<close> on the \<open>defaultdict(dict)\<close>: a missing key is inserted with a new empty
  dictionary, which is returned. The result is the table after the access and the
  dictionary found.
\<close>

definition defaultdict_getitem :: "table \<Rightarrow> key \<Rightarrow> table \<times> values_dict" where
  "defaultdict_getitem tbl k =
     (case map_of tbl k of
        Some d \<Rightarrow> (tbl, d)
      | None \<Rightarrow> (tbl @ [(k, [])], []))"

text \<open>
  Python's \<open>max\<close> walks the sequence once and keeps the first greatest element: the
  candidate is replaced only by a strictly greater one.
\<close>

fun max_key_from :: "('a \<Rightarrow> real) \<Rightarrow> 'a \<Rightarrow> 'a list \<Rightarrow> 'a" where
  "max_key_from f best [] = best"
| "max_key_from f best (m # ms) = max_key_from f (if f best < f m then m else best) ms"

text \<open>\<open>max(xs, key=f)\<close>: \<open>ValueError\<close> on an empty sequence.\<close>

definition py_max_key :: "('a \<Rightarrow> real) \<Rightarrow> 'a list \<Rightarrow> py_error + 'a" where
  "py_max_key f xs = (case xs of [] \<Rightarrow> Inl ValueError | m # ms \<Rightarrow> Inr (max_key_from f m ms))"

text \<open>
  \<open>random.choice(xs)\<close>: \<open>IndexError\<close> on an empty sequence, otherwise the element at a
  position drawn by the generator; the draw is the number \<open>k\<close>.
\<close>

definition random_choice :: "'a list \<Rightarrow> nat \<Rightarrow> py_error + 'a" where
  "random_choice xs k = (if xs = [] then Inl IndexError else Inr (xs ! (k mod length xs)))"

section \<open>The agent\<close>

definition SelfPlayAgent_init :: "real \<Rightarrow> real \<Rightarrow> real \<Rightarrow> agent" where
  "SelfPlayAgent_init al ga ep = \<lparr>q = [], alpha = al, gamma = ga, epsilon = ep\<rparr>"

text \<open>
  \<open>choose_action\<close>. The process-wide random source is made explicit: \<open>rnd\<close> is the pair
  of what \<open>random.random()\<close> and \<open>random.choice\<close> would draw, consulted only where the
  code calls them. The result is the agent after the call and the value returned or the
  exception raised.
\<close>

definition choose_action ::
  "agent \<Rightarrow> board \<Rightarrow> player \<Rightarrow> bool \<Rightarrow> real \<times> nat \<Rightarrow> agent \<times> (py_error + action \<times> state)" where
  "choose_action a board player explore rnd =
     (let state = encode_state board player;
          moves = empty_cells board
      in if explore \<and> fst rnd < epsilon a then
           (a, case random_choice moves (snd rnd) of
                 Inl e \<Rightarrow> Inl e
               | Inr m \<Rightarrow> Inr (m, state))
         else
           (let (tbl, vals) = defaultdict_getitem (q a) (Some state)
            in (a\<lparr>q := tbl\<rparr>,
                case py_max_key (\<lambda>m. dict_get vals m 0) moves of
                  Inl e \<Rightarrow> Inl e
                | Inr best \<Rightarrow> Inr (best, state))))"

text \<open>
  \<open>update\<close>. \<open>values\<close> is the dictionary object stored under \<open>state\<close>, so the final
  assignment \<open>values[action] = ...\<close> changes the table entry of \<open>state\<close>. The
  arithmetic is that of \<open>ops\<close>, in the order in which Python evaluates the two
  expressions.
\<close>

definition update ::
  "float_ops \<Rightarrow> agent \<Rightarrow> key \<Rightarrow> action \<Rightarrow> real \<Rightarrow> key \<Rightarrow> bool \<Rightarrow> agent" where
  "update ops a state act reward next_state done =
     (let (tbl1, vals) = defaultdict_getitem (q a) state;
          old = dict_get vals act 0;
          (tbl2, target) =
            (if done then (tbl1, reward)
             else
               (let (tbl', next_values) = defaultdict_getitem tbl1 next_state;
                    next_best =
                      (case map snd next_values of
                         [] \<Rightarrow> 0
                       | v # vs \<Rightarrow> max_key_from (\<lambda>x. x) v vs)
                in (tbl', fsub ops reward (fmul ops (gamma a) next_best))))
      in a\<lparr>q := AList.update state
                   (AList.update act
                      (fadd ops old (fmul ops (alpha a) (fsub ops target old))) vals)
                   tbl2\<rparr>)"

definition best_move :: "agent \<Rightarrow> board \<Rightarrow> player \<Rightarrow> agent \<times> (py_error + action)" where
  "best_move a board player =
     (case choose_action a board player False (0, 0) of
        (a', Inl e) \<Rightarrow> (a', Inl e)
      | (a', Inr (act, _)) \<Rightarrow> (a', Inr act))"

text \<open>The value the table holds for a state and an action, absent entries read as 0.\<close>

definition table_value :: "table \<Rightarrow> key \<Rightarrow> action \<Rightarrow> real" where
  "table_value tbl k act = dict_get (dict_get tbl k []) act 0"

section \<open>Persistence\<close>

text \<open>
  The file system is a map from paths to file contents. The \<open>pickle\<close> module is not
  part of the program: its two functions are parameters, \<open>dump\<close> producing the contents
  of a file and \<open>pload\<close> reading them back or raising. \<open>dict(self.q)\<close> and
  \<open>defaultdict(dict, data)\<close> keep the items as they are.
\<close>

type_synonym path = string

definition load ::
  "('f \<Rightarrow> py_error + table) \<Rightarrow> (path \<rightharpoonup> 'f) \<Rightarrow> agent \<Rightarrow> path \<Rightarrow> agent \<times> (py_error + bool)" where
  "load pload fs a p =
     (case fs p of
        None \<Rightarrow> (a, Inr False)
      | Some content \<Rightarrow>
          (case pload content of
             Inl e \<Rightarrow> (a, Inl e)
           | Inr data \<Rightarrow> (a\<lparr>q := data\<rparr>, Inr True)))"

definition save :: "(table \<Rightarrow> 'f) \<Rightarrow> (path \<rightharpoonup> 'f) \<Rightarrow> agent \<Rightarrow> path \<Rightarrow> (path \<rightharpoonup> 'f)" where
  "save dump fs a p = fs(p \<mapsto> dump (q a))"

section \<open>Training\<close>

text \<open>\<open>board[i] = v\<close>\<close>

definition set_cell :: "board \<Rightarrow> nat \<Rightarrow> cell \<Rightarrow> py_error + board" where
  "set_cell board i v = (if i < length board then Inr (board[i := v]) else Inl IndexError)"

text \<open>\<open>bool(winner)\<close>: \<open>None\<close> and the empty string are false.\<close>

definition py_bool :: "cell option \<Rightarrow> bool" where
  "py_bool w = (case w of None \<Rightarrow> False | Some s \<Rightarrow> s \<noteq> [])"

text \<open>
  One call of \<open>update\<close> made by the training loop, with its five arguments. The fields
  \<open>tr_mover\<close>, \<open>tr_before\<close> and \<open>tr_board\<close> record the player who moved and the board
  before and after the move.
\<close>

record transition =
  tr_state :: state
  tr_action :: action
  tr_reward :: real
  tr_next_state :: key
  tr_done :: bool
  tr_mover :: player
  tr_before :: board
  tr_board :: board

text \<open>
  The body of \<open>while True\<close> of one episode. \<open>rnd t\<close> is what the random source draws
  at the \<open>t\<close>-th call of \<open>choose_action\<close>; \<open>trace\<close> collects the transitions. The
  result is \<open>None\<close> if the loop does not end, an exception, or the agent, the number of
  draws used and the trace.
\<close>

partial_function (option) play_episode ::
  "float_ops \<Rightarrow> (nat \<Rightarrow> real \<times> nat) \<Rightarrow> agent \<Rightarrow> board \<Rightarrow> player \<Rightarrow> nat \<Rightarrow> transition list
     \<Rightarrow> (py_error + agent \<times> nat \<times> transition list) option" where
  "play_episode ops rnd a board player t trace =
     (case choose_action a board player True (rnd t) of
        (a1, Inl e) \<Rightarrow> Some (Inl e)
      | (a1, Inr (act, state)) \<Rightarrow>
          (case set_cell board act player of
             Inl e \<Rightarrow> Some (Inl e)
           | Inr board' \<Rightarrow>
               (case check_winner board' of
                  Inl e \<Rightarrow> Some (Inl e)
                | Inr winner \<Rightarrow>
                    (let done = (py_bool winner \<or> is_full board');
                         reward = (if winner = Some player then 1 else 0)
                     in if done then
                          Some (Inr (update ops a1 (Some state) act reward None True, Suc t,
                            trace @ [\<lparr>tr_state = state, tr_action = act, tr_reward = reward,
                                      tr_next_state = None, tr_done = True, tr_mover = player,
                                      tr_before = board, tr_board = board'\<rparr>]))
                        else
                          (let next_player = (if player = ''X'' then ''O'' else ''X'');
                               next_state = encode_state board' next_player
                           in play_episode ops rnd
                                (update ops a1 (Some state) act reward (Some next_state) False)
                                board' next_player (Suc t)
                                (trace @ [\<lparr>tr_state = state, tr_action = act,
                                           tr_reward = reward,
                                           tr_next_state = Some next_state, tr_done = False,
                                           tr_mover = player, tr_before = board,
                                           tr_board = board'\<rparr>]))))))"

declare play_episode.simps [code]

text \<open>
  \<open>for episode in range(episodes)\<close>: \<open>n\<close> episodes remain, \<open>episode\<close> is the index of
  the next one, \<open>traces\<close> holds the trace of every finished episode.
\<close>

fun train_from ::
  "float_ops \<Rightarrow> (nat \<Rightarrow> real \<times> nat) \<Rightarrow> nat \<Rightarrow> nat \<Rightarrow> agent \<Rightarrow> nat \<Rightarrow> transition list list
     \<Rightarrow> (py_error + agent \<times> nat \<times> transition list list) option" where
  "train_from ops rnd 0 episode a t traces = Some (Inr (a, t, traces))"
| "train_from ops rnd (Suc n) episode a t traces =
     (case play_episode ops rnd a (replicate 9 '' '')
             (if episode mod 2 = 0 then ''X'' else ''O'') t [] of
        None \<Rightarrow> None
      | Some (Inl e) \<Rightarrow> Some (Inl e)
      | Some (Inr (a', t', trace)) \<Rightarrow> train_from ops rnd n (Suc episode) a' t' (traces @ [trace]))"

text \<open>\<open>range(episodes)\<close> is empty for a count below 1.\<close>

definition train ::
  "float_ops \<Rightarrow> (nat \<Rightarrow> real \<times> nat) \<Rightarrow> agent \<Rightarrow> int
     \<Rightarrow> (py_error + agent \<times> nat \<times> transition list list) option" where
  "train ops rnd a episodes = train_from ops rnd (nat episodes) 0 a 0 []"

section \<open>Notions used to state the properties\<close>

text \<open>The condition \<open>check_winner\<close> tests on a line, on cells that exist.\<close>

definition line_complete :: "board \<Rightarrow> nat \<times> nat \<times> nat \<Rightarrow> bool" where
  "line_complete board l =
     (case l of (a, b, c) \<Rightarrow>
        board ! a \<noteq> '' '' \<and> board ! a = board ! b \<and> board ! b = board ! c)"

definition line_in_range :: "board \<Rightarrow> nat \<times> nat \<times> nat \<Rightarrow> bool" where
  "line_in_range board l =
     (case l of (a, b, c) \<Rightarrow> a < length board \<and> b < length board \<and> c < length board)"

text \<open>The board invariant of the specification: nine cells, each Empty, X or O.\<close>

definition one_mark_per_cell :: "board \<Rightarrow> bool" where
  "one_mark_per_cell board =
     (length board = 9 \<and> list_all (\<lambda>v. v = '' '' \<or> v = ''X'' \<or> v = ''O'') board)"


text \<open>A state and an action for which the table stores a value.\<close>

definition entry_present :: "table \<Rightarrow> key \<Rightarrow> action \<Rightarrow> bool" where
  "entry_present tbl k act =
     (case map_of tbl k of None \<Rightarrow> False | Some d \<Rightarrow> map_of d act \<noteq> None)"

text \<open>
  One pass through the body of the loop of \<open>play_episode\<close>, as a function of its own:
  the agent after the pass and the transition it records. Lemma \<open>play_episode_body\<close>
  below shows that the loop is this body, repeated until \<open>done\<close>.
\<close>

definition loop_body ::
  "float_ops \<Rightarrow> agent \<Rightarrow> board \<Rightarrow> player \<Rightarrow> real \<times> nat \<Rightarrow> py_error + agent \<times> transition" where
  "loop_body ops a board player rd =
     (case choose_action a board player True rd of
        (a1, Inl e) \<Rightarrow> Inl e
      | (a1, Inr (act, state)) \<Rightarrow>
          (case set_cell board act player of
             Inl e \<Rightarrow> Inl e
           | Inr board' \<Rightarrow>
               (case check_winner board' of
                  Inl e \<Rightarrow> Inl e
                | Inr winner \<Rightarrow>
                    (let done = (py_bool winner \<or> is_full board');
                         reward = (if winner = Some player then 1 else 0)
                     in if done then
                          Inr (update ops a1 (Some state) act reward None True,
                               \<lparr>tr_state = state, tr_action = act, tr_reward = reward,
                                tr_next_state = None, tr_done = True, tr_mover = player,
                                tr_before = board, tr_board = board'\<rparr>)
                        else
                          (let next_player = (if player = ''X'' then ''O'' else ''X'');
                               next_state = encode_state board' next_player
                           in Inr (update ops a1 (Some state) act reward (Some next_state) False,
                                   \<lparr>tr_state = state, tr_action = act, tr_reward = reward,
                                    tr_next_state = Some next_state, tr_done = False,
                                    tr_mover = player, tr_before = board,
                                    tr_board = board'\<rparr>))))))"

definition other_player :: "player \<Rightarrow> player" where
  "other_player p = (if p = ''X'' then ''O'' else ''X'')"

text \<open>
  What the loop records in one pass: the move is made by X or O on an Empty cell of a
  board of 9 cells, the board after the move differs in that cell only and has one Empty
  cell less, and \<open>state\<close>, \<open>done\<close>, \<open>reward\<close> and \<open>next_state\<close> are computed from
  these as \<open>train\<close> does.
\<close>

definition transition_ok :: "transition \<Rightarrow> bool" where
  "transition_ok tr =
     (one_mark_per_cell (tr_before tr)
      \<and> (tr_mover tr = ''X'' \<or> tr_mover tr = ''O'')
      \<and> tr_action tr < 9
      \<and> tr_before tr ! tr_action tr = '' ''
      \<and> tr_board tr = (tr_before tr)[tr_action tr := tr_mover tr]
      \<and> Suc (length (empty_cells (tr_board tr))) = length (empty_cells (tr_before tr))
      \<and> tr_state tr = encode_state (tr_before tr) (tr_mover tr)
      \<and> (\<exists>w. check_winner (tr_board tr) = Inr w
             \<and> tr_done tr = (w \<noteq> None \<or> is_full (tr_board tr))
             \<and> tr_reward tr = (if w = Some (tr_mover tr) then 1 else 0))
      \<and> tr_next_state tr =
          (if tr_done tr then None
           else Some (encode_state (tr_board tr) (other_player (tr_mover tr)))))"

text \<open>
  A trace that starts on \<open>board\<close> with \<open>player\<close> to move: each transition continues
  from the board the one before it left, the players alternate, and \<open>done\<close> holds for
  the last transition only.
\<close>

fun trace_from :: "board \<Rightarrow> player \<Rightarrow> transition list \<Rightarrow> bool" where
  "trace_from board player [] = True"
| "trace_from board player (tr # trs) =
     (tr_before tr = board \<and> tr_mover tr = player \<and> transition_ok tr
      \<and> (tr_done tr \<longleftrightarrow> trs = [])
      \<and> trace_from (tr_board tr) (other_player player) trs)"

text \<open>The trace of the episode of index \<open>episode\<close>.\<close>

definition episode_ok :: "nat \<Rightarrow> transition list \<Rightarrow> bool" where
  "episode_ok episode trace =
     (trace \<noteq> [] \<and> length trace \<le> 9
      \<and> trace_from (replicate 9 '' '') (if episode mod 2 = 0 then ''X'' else ''O'') trace)"

text \<open>
  The operations without rounding. Where the exact result of each operation is a double,
  as it is for the dyadic numbers of the examples below, the rounded operations return it.
\<close>

definition exact_ops :: float_ops where
  "exact_ops = \<lparr>fadd = (+), fsub = (-), fmul = (*)\<rparr>"

text \<open>
  A run used as an example below, of an agent with \<open>alpha = 0.25\<close>, \<open>gamma = 0.5\<close> and
  \<open>epsilon = 0.25\<close>: the random source explores at each move, with the draws that make
  X play 0, 1, 2 and O play 3, 4.
\<close>

definition example_rnd :: "nat \<Rightarrow> real \<times> nat" where
  "example_rnd t = (0, [0, 2, 0, 1, 0] ! t)"

definition example_agent :: agent where
  "example_agent =
     \<lparr>q = [(Some [''_'', ''_'', ''_'', ''_'', ''_'', ''_'', ''_'', ''_'', ''_''], [(0, 0)]),
        (Some [''E'', ''_'', ''_'', ''_'', ''_'', ''_'', ''_'', ''_'', ''_''], [(3, 0)]),
        (Some [''P'', ''_'', ''_'', ''E'', ''_'', ''_'', ''_'', ''_'', ''_''], [(1, 0)]),
        (Some [''E'', ''E'', ''_'', ''P'', ''_'', ''_'', ''_'', ''_'', ''_''], [(4, 0)]),
        (Some [''P'', ''P'', ''_'', ''E'', ''E'', ''_'', ''_'', ''_'', ''_''], [(2, 1 / 4)])],
      alpha = 1 / 4, gamma = 1 / 2, epsilon = 1 / 4\<rparr>"

definition example_trace :: "transition list" where
  "example_trace =
     [\<lparr>tr_state = [''_'', ''_'', ''_'', ''_'', ''_'', ''_'', ''_'', ''_'', ''_''],
        tr_action = 0, tr_reward = 0,
        tr_next_state = Some [''E'', ''_'', ''_'', ''_'', ''_'', ''_'', ''_'', ''_'', ''_''],
        tr_done = False, tr_mover = ''X'',
        tr_before = ['' '', '' '', '' '', '' '', '' '', '' '', '' '', '' '', '' ''],
        tr_board = [''X'', '' '', '' '', '' '', '' '', '' '', '' '', '' '', '' '']\<rparr>,
      \<lparr>tr_state = [''E'', ''_'', ''_'', ''_'', ''_'', ''_'', ''_'', ''_'', ''_''],
        tr_action = 3, tr_reward = 0,
        tr_next_state = Some [''P'', ''_'', ''_'', ''E'', ''_'', ''_'', ''_'', ''_'', ''_''],
        tr_done = False, tr_mover = ''O'',
        tr_before = [''X'', '' '', '' '', '' '', '' '', '' '', '' '', '' '', '' ''],
        tr_board = [''X'', '' '', '' '', ''O'', '' '', '' '', '' '', '' '', '' '']\<rparr>,
      \<lparr>tr_state = [''P'', ''_'', ''_'', ''E'', ''_'', ''_'', ''_'', ''_'', ''_''],
        tr_action = 1, tr_reward = 0,
        tr_next_state = Some [''E'', ''E'', ''_'', ''P'', ''_'', ''_'', ''_'', ''_'', ''_''],
        tr_done = False, tr_mover = ''X'',
        tr_before = [''X'', '' '', '' '', ''O'', '' '', '' '', '' '', '' '', '' ''],
        tr_board = [''X'', ''X'', '' '', ''O'', '' '', '' '', '' '', '' '', '' '']\<rparr>,
      \<lparr>tr_state = [''E'', ''E'', ''_'', ''P'', ''_'', ''_'', ''_'', ''_'', ''_''],
        tr_action = 4, tr_reward = 0,
        tr_next_state = Some [''P'', ''P'', ''_'', ''E'', ''E'', ''_'', ''_'', ''_'', ''_''],
        tr_done = False, tr_mover = ''O'',
        tr_before = [''X'', ''X'', '' '', ''O'', '' '', '' '', '' '', '' '', '' ''],
        tr_board = [''X'', ''X'', '' '', ''O'', ''O'', '' '', '' '', '' '', '' '']\<rparr>,
      \<lparr>tr_state = [''P'', ''P'', ''_'', ''E'', ''E'', ''_'', ''_'', ''_'', ''_''],
        tr_action = 2, tr_reward = 1,
        tr_next_state = None,
        tr_done = True, tr_mover = ''X'',
        tr_before = [''X'', ''X'', '' '', ''O'', ''O'', '' '', '' '', '' '', '' ''],
        tr_board = [''X'', ''X'', ''X'', ''O'', ''O'', '' '', '' '', '' '', '' '']\<rparr>]"

section \<open>The state encoder\<close>

lemma encode_X_O: "encode_state board ''O'' = map swap_labels (encode_state board ''X'')"
  by (simp add: encode_state_def swap_labels_def)

lemma encode_O_X: "encode_state board ''X'' = map swap_labels (encode_state board ''O'')"
  by (simp add: encode_state_def swap_labels_def)

lemma length_encode_state: "length (encode_state board player) = length board"
  by (simp add: encode_state_def Let_def)

lemma encode_state_nth:
  "i < length board \<Longrightarrow> encode_state board player ! i =
     (if board ! i = player then ''P''
      else if board ! i = (if player = ''X'' then ''O'' else ''X'') then ''E'' else ''_'')"
  by (simp add: encode_state_def Let_def)

text \<open>
  Claim C3. For every board, the encodings for the two marks \<open>"X"\<close> and \<open>"O"\<close> have
  the length of the board (9 on a board of 9 cells) and each is the other with the
  labels Self (\<open>"P"\<close>) and Enemy (\<open>"E"\<close>) exchanged at every cell; a cell that is Empty
  on the board is labelled Empty (\<open>"_"\<close>) in both.
\<close>

theorem encode_state_perspective_swap:
  "encode_state board ''O'' = map swap_labels (encode_state board ''X'')
   \<and> encode_state board ''X'' = map swap_labels (encode_state board ''O'')
   \<and> length (encode_state board ''X'') = length board
   \<and> length (encode_state board ''O'') = length board
   \<and> (\<forall>i < length board.
        (encode_state board ''X'' ! i = ''P'' \<longleftrightarrow> encode_state board ''O'' ! i = ''E'')
      \<and> (encode_state board ''X'' ! i = ''E'' \<longleftrightarrow> encode_state board ''O'' ! i = ''P'')
      \<and> (encode_state board ''X'' ! i = ''_'' \<longleftrightarrow> encode_state board ''O'' ! i = ''_'')
      \<and> (board ! i = '' '' \<longrightarrow>
            encode_state board ''X'' ! i = ''_'' \<and> encode_state board ''O'' ! i = ''_''))"
proof -
  have "\<forall>i < length board.
        (encode_state board ''X'' ! i = ''P'' \<longleftrightarrow> encode_state board ''O'' ! i = ''E'')
      \<and> (encode_state board ''X'' ! i = ''E'' \<longleftrightarrow> encode_state board ''O'' ! i = ''P'')
      \<and> (encode_state board ''X'' ! i = ''_'' \<longleftrightarrow> encode_state board ''O'' ! i = ''_'')
      \<and> (board ! i = '' '' \<longrightarrow>
            encode_state board ''X'' ! i = ''_'' \<and> encode_state board ''O'' ! i = ''_'')"
    by (simp add: encode_state_nth)
  then show ?thesis
    using encode_X_O encode_O_X length_encode_state by blast
qed

theorem encode_state_perspective_swap_witness:
  "(1::nat) < length [''X'', '' '', ''O'', '' '', ''X'', '' '', '' '', ''O'', '' '']
   \<and> [''X'', '' '', ''O'', '' '', ''X'', '' '', '' '', ''O'', '' ''] ! 1 = '' ''
   \<and> encode_state [''X'', '' '', ''O'', '' '', ''X'', '' '', '' '', ''O'', '' ''] ''X''
     = [''P'', ''_'', ''E'', ''_'', ''P'', ''_'', ''_'', ''E'', ''_'']
   \<and> encode_state [''X'', '' '', ''O'', '' '', ''X'', '' '', '' '', ''O'', '' ''] ''O''
     = [''E'', ''_'', ''P'', ''_'', ''E'', ''_'', ''_'', ''P'', ''_'']
   \<and> encode_state [''X'', '' '', ''O'', '' '', ''X'', '' '', '' '', ''O'', '' ''] ''O'' ! 1 = ''_''"
  using encode_state_perspective_swap
    [of "[''X'', '' '', ''O'', '' '', ''X'', '' '', '' '', ''O'', '' '']"]
  by (simp add: encode_state_def swap_labels_def)

section \<open>The winner of a board\<close>

lemma line_test_in_range:
  "line_in_range board l \<Longrightarrow> line_test board l = Inr (line_complete board l)"
  by (cases l) (auto simp: line_in_range_def line_complete_def get_cell_def)

lemma check_lines_in_range:
  "\<forall>l \<in> set ls. line_in_range board l \<Longrightarrow>
   check_lines board ls =
     Inr (case find (line_complete board) ls of None \<Rightarrow> None | Some l \<Rightarrow> Some (board ! fst l))"
proof (induction ls)
  case Nil
  then show ?case by simp
next
  case (Cons l ls)
  then have r: "line_in_range board l" by simp
  then have "fst l < length board" by (cases l) (simp add: line_in_range_def)
  with Cons r show ?case
    by (simp add: line_test_in_range get_cell_def)
qed

lemma WIN_LINES_in_range: "length board = 9 \<Longrightarrow> \<forall>l \<in> set WIN_LINES. line_in_range board l"
  by (simp add: WIN_LINES_def line_in_range_def)

lemma check_winner_find:
  "length board = 9 \<Longrightarrow>
   check_winner board =
     Inr (case find (line_complete board) WIN_LINES of
            None \<Rightarrow> None
          | Some l \<Rightarrow> Some (board ! fst l))"
  unfolding check_winner_def by (rule check_lines_in_range) (rule WIN_LINES_in_range)

lemma line_complete_won_by: "line_complete board l \<longleftrightarrow> (\<exists>m. line_won_by board m l)"
  by (cases l) (auto simp: line_complete_def line_won_by_def)

lemma line_complete_won_by_fst: "line_complete board l \<Longrightarrow> line_won_by board (board ! fst l) l"
  by (cases l) (auto simp: line_complete_def line_won_by_def)

lemma check_winner_None_iff:
  assumes "length board = 9"
  shows "check_winner board = Inr None \<longleftrightarrow> (\<forall>l \<in> set WIN_LINES. \<not> line_complete board l)"
proof (cases "find (line_complete board) WIN_LINES")
  case None
  then have "\<forall>l \<in> set WIN_LINES. \<not> line_complete board l"
    by (auto simp: find_None_iff)
  with assms None show ?thesis by (simp add: check_winner_find)
next
  case (Some l)
  then have "l \<in> set WIN_LINES" "line_complete board l"
    by (auto simp: find_Some_iff)
  with assms Some show ?thesis by (auto simp: check_winner_find)
qed

lemma line_won_by_complete: "line_won_by board m l \<Longrightarrow> line_complete board l"
  by (cases l) (auto simp: line_complete_def line_won_by_def)

lemma line_won_by_same_line:
  "line_won_by board m1 l \<Longrightarrow> line_won_by board m2 l \<Longrightarrow> m1 = m2"
  by (cases l) (simp add: line_won_by_def)

text \<open>
  Claim C7, as stated, fails: that \<open>check_winner\<close> returns a mark if and only if some
  line is fully occupied by that mark is false on a board where two marks each occupy a
  line. Here the middle row is all O, and the mark returned is X, not O.
\<close>

theorem check_winner_other_mark_counterexample:
  "length [''X'', ''X'', ''X'', ''O'', ''O'', ''O'', '' '', '' '', '' ''] = 9
   \<and> (3, 4, 5) \<in> set WIN_LINES
   \<and> line_won_by [''X'', ''X'', ''X'', ''O'', ''O'', ''O'', '' '', '' '', '' ''] ''O'' (3, 4, 5)
   \<and> check_winner [''X'', ''X'', ''X'', ''O'', ''O'', ''O'', '' '', '' '', '' '']
       = Inr (Some ''X'')
   \<and> check_winner [''X'', ''X'', ''X'', ''O'', ''O'', ''O'', '' '', '' '', '' '']
       \<noteq> Inr (Some ''O'')"
  by (simp add: WIN_LINES_def line_won_by_def check_winner_def get_cell_def)

text \<open>
  Claim C7, amended. On every board of 9 cells \<open>check_winner\<close> raises nothing. It
  returns a mark exactly when some line of \<open>WIN_LINES\<close> has three equal non-Empty cells,
  and \<open>None\<close> when no line is fully occupied by one mark. It returns the mark \<open>m\<close>
  exactly when the first fully occupied line, in the order of \<open>WIN_LINES\<close>, is occupied
  by \<open>m\<close>; so the mark returned occupies a line, and a mark that occupies a line is the
  one returned whenever no other mark occupies a line as well.
\<close>

theorem check_winner_iff_line:
  assumes "length board = 9"
  shows "\<exists>w. check_winner board = Inr w
           \<and> (w \<noteq> None \<longleftrightarrow> (\<exists>l \<in> set WIN_LINES. \<exists>m. line_won_by board m l))
           \<and> (\<forall>m. w = Some m \<longrightarrow> (\<exists>l \<in> set WIN_LINES. line_won_by board m l))
           \<and> ((\<forall>l \<in> set WIN_LINES. \<forall>m. \<not> line_won_by board m l) \<longrightarrow> w = None)
           \<and> (\<forall>m. (\<exists>l \<in> set WIN_LINES. line_won_by board m l)
                  \<and> (\<forall>l \<in> set WIN_LINES. \<forall>m'. line_won_by board m' l \<longrightarrow> m' = m)
                  \<longrightarrow> w = Some m)
           \<and> (\<forall>m. w = Some m \<longleftrightarrow>
                  (\<exists>i < length WIN_LINES. line_won_by board m (WIN_LINES ! i)
                     \<and> (\<forall>j < i. \<forall>m'. \<not> line_won_by board m' (WIN_LINES ! j))))"
proof (cases "find (line_complete board) WIN_LINES")
  case None
  then have no: "\<forall>l \<in> set WIN_LINES. \<not> line_complete board l"
    by (auto simp: find_None_iff)
  then have no_i: "\<forall>i < length WIN_LINES. \<forall>m. \<not> line_won_by board m (WIN_LINES ! i)"
    using line_won_by_complete nth_mem by blast
  have no_m: "\<forall>l \<in> set WIN_LINES. \<forall>m. \<not> line_won_by board m l"
    using no line_won_by_complete by blast
  have cw: "check_winner board = Inr None"
    using assms None by (simp add: check_winner_find)
  have "(\<forall>m. None = Some m \<longleftrightarrow>
                  (\<exists>i < length WIN_LINES. line_won_by board m (WIN_LINES ! i)
                     \<and> (\<forall>j < i. \<forall>m'. \<not> line_won_by board m' (WIN_LINES ! j))))"
    using no_i by blast
  with cw no_m show ?thesis
    by (intro exI [of _ None]) blast
next
  case (Some l)
  then obtain i where i: "i < length WIN_LINES" "l = WIN_LINES ! i" "line_complete board l"
    and first: "\<forall>j < i. \<not> line_complete board (WIN_LINES ! j)"
    by (auto simp: find_Some_iff)
  have l: "l \<in> set WIN_LINES" using i(1,2) by simp
  let ?m = "board ! fst l"
  have cw: "check_winner board = Inr (Some ?m)"
    using assms Some by (simp add: check_winner_find)
  have won: "line_won_by board ?m l"
    using i(3) by (rule line_complete_won_by_fst)
  have first': "\<forall>j < i. \<forall>m'. \<not> line_won_by board m' (WIN_LINES ! j)"
    using first line_won_by_complete by blast
  have exact: "Some ?m = Some m \<longleftrightarrow>
                  (\<exists>i < length WIN_LINES. line_won_by board m (WIN_LINES ! i)
                     \<and> (\<forall>j < i. \<forall>m'. \<not> line_won_by board m' (WIN_LINES ! j)))" for m
  proof
    assume "Some ?m = Some m"
    then have "line_won_by board m (WIN_LINES ! i)" using won i(2) by simp
    with i(1) first' show "\<exists>i < length WIN_LINES. line_won_by board m (WIN_LINES ! i)
                     \<and> (\<forall>j < i. \<forall>m'. \<not> line_won_by board m' (WIN_LINES ! j))"
      by blast
  next
    assume "\<exists>i < length WIN_LINES. line_won_by board m (WIN_LINES ! i)
                     \<and> (\<forall>j < i. \<forall>m'. \<not> line_won_by board m' (WIN_LINES ! j))"
    then obtain k where k: "k < length WIN_LINES" "line_won_by board m (WIN_LINES ! k)"
      and kfirst: "\<forall>j < k. \<forall>m'. \<not> line_won_by board m' (WIN_LINES ! j)"
      by blast
    have "\<not> i < k" using kfirst won i(2) by blast
    moreover have "\<not> k < i" using first' k(2) by blast
    ultimately have "k = i" by simp
    with k(2) i(2) have "line_won_by board m l" by simp
    with won have "?m = m" by (rule line_won_by_same_line)
    then show "Some ?m = Some m" by simp
  qed
  have single: "(\<exists>l \<in> set WIN_LINES. line_won_by board m l)
                  \<and> (\<forall>l \<in> set WIN_LINES. \<forall>m'. line_won_by board m' l \<longrightarrow> m' = m)
                  \<longrightarrow> Some ?m = Some m" for m
    using l won by blast
  have "(Some ?m \<noteq> None \<longleftrightarrow> (\<exists>l \<in> set WIN_LINES. \<exists>m. line_won_by board m l))
           \<and> (\<forall>m. Some ?m = Some m \<longrightarrow> (\<exists>l \<in> set WIN_LINES. line_won_by board m l))
           \<and> ((\<forall>l \<in> set WIN_LINES. \<forall>m. \<not> line_won_by board m l) \<longrightarrow> Some ?m = None)"
    using l won by auto
  with cw exact single show ?thesis
    by (intro exI [of _ "Some ?m"]) blast
qed

theorem check_winner_iff_line_witness:
  "length [''O'', ''X'', '' '', ''O'', ''X'', '' '', '' '', ''X'', '' ''] = 9
   \<and> check_winner [''O'', ''X'', '' '', ''O'', ''X'', '' '', '' '', ''X'', '' '']
       = Inr (Some ''X'')
   \<and> (1, 4, 7) \<in> set WIN_LINES
   \<and> line_won_by [''O'', ''X'', '' '', ''O'', ''X'', '' '', '' '', ''X'', '' ''] ''X'' (1, 4, 7)"
  using check_winner_iff_line
    [of "[''O'', ''X'', '' '', ''O'', ''X'', '' '', '' '', ''X'', '' '']"]
  by (simp add: check_winner_def WIN_LINES_def get_cell_def line_won_by_def)

text \<open>
  Claim C5, as stated, fails: a board of 9 cells, each Empty, X or O, can have two lines
  fully occupied by two different marks. Here the top row is all X and the middle row
  all O; \<open>check_winner\<close> returns the mark of the first such line of \<open>WIN_LINES\<close>.
\<close>

theorem two_lines_two_marks_counterexample:
  "one_mark_per_cell [''X'', ''X'', ''X'', ''O'', ''O'', ''O'', '' '', '' '', '' '']
   \<and> (0, 1, 2) \<in> set WIN_LINES \<and> (3, 4, 5) \<in> set WIN_LINES
   \<and> line_won_by [''X'', ''X'', ''X'', ''O'', ''O'', ''O'', '' '', '' '', '' ''] ''X'' (0, 1, 2)
   \<and> line_won_by [''X'', ''X'', ''X'', ''O'', ''O'', ''O'', '' '', '' '', '' ''] ''O'' (3, 4, 5)
   \<and> ''X'' \<noteq> ''O''
   \<and> check_winner [''X'', ''X'', ''X'', ''O'', ''O'', ''O'', '' '', '' '', '' '']
       = Inr (Some ''X'')"
  by (simp add: one_mark_per_cell_def WIN_LINES_def line_won_by_def check_winner_def
      get_cell_def)

lemma line_won_by_update:
  assumes "\<not> line_complete board l" "line_won_by (board[i := p]) m l" "line_in_range board l"
  shows "m = p"
proof (cases l)
  case (fields a b c)
  show ?thesis
  proof (cases "i = a \<or> i = b \<or> i = c")
    case True
    with assms fields show ?thesis
      by (auto simp: line_won_by_def line_in_range_def)
  next
    case False
    with assms fields show ?thesis
      by (auto simp: line_complete_def line_won_by_def)
  qed
qed

text \<open>
  Claim C5, amended. A move is only ever made on a board on which \<open>check_winner\<close> has
  found no winner (play stops at the first win). On every board obtained from such a
  board of 9 cells by placing a mark \<open>p\<close> on one cell, every line of \<open>WIN_LINES\<close> that
  is fully occupied is occupied by \<open>p\<close>: no two lines are fully occupied by two
  different marks.
\<close>

theorem one_winner_after_move:
  assumes "length board = 9" and "check_winner board = Inr None"
    and "l1 \<in> set WIN_LINES" and "l2 \<in> set WIN_LINES"
    and "line_won_by (board[i := p]) m1 l1" and "line_won_by (board[i := p]) m2 l2"
  shows "m1 = p \<and> m2 = p \<and> m1 = m2"
proof -
  have no: "\<forall>l \<in> set WIN_LINES. \<not> line_complete board l"
    using assms(1,2) by (simp add: check_winner_None_iff)
  have r: "\<forall>l \<in> set WIN_LINES. line_in_range board l"
    using assms(1) by (rule WIN_LINES_in_range)
  have "m1 = p" using no r assms(3,5) line_won_by_update by blast
  moreover have "m2 = p" using no r assms(4,6) line_won_by_update by blast
  ultimately show ?thesis by simp
qed

theorem one_winner_after_move_witness:
  "length [''X'', ''X'', '' '', ''O'', ''X'', ''O'', ''X'', ''O'', ''O''] = 9
   \<and> check_winner [''X'', ''X'', '' '', ''O'', ''X'', ''O'', ''X'', ''O'', ''O''] = Inr None
   \<and> (0, 1, 2) \<in> set WIN_LINES \<and> (2, 4, 6) \<in> set WIN_LINES
   \<and> line_won_by ([''X'', ''X'', '' '', ''O'', ''X'', ''O'', ''X'', ''O'', ''O''][2 := ''X''])
        ''X'' (0, 1, 2)
   \<and> line_won_by ([''X'', ''X'', '' '', ''O'', ''X'', ''O'', ''X'', ''O'', ''O''][2 := ''X''])
        ''X'' (2, 4, 6)
   \<and> ''X'' = ''X''"
  using one_winner_after_move
    [of "[''X'', ''X'', '' '', ''O'', ''X'', ''O'', ''X'', ''O'', ''O'']"
        "(0, 1, 2)" "(2, 4, 6)" 2 "''X''" "''X''" "''X''"]
  by (simp add: check_winner_def WIN_LINES_def get_cell_def line_won_by_def)

section \<open>The greedy policy\<close>

lemma empty_cells_filter:
  "empty_cells board = filter (\<lambda>i. board ! i = '' '') [0..<length board]"
proof -
  have "map fst (filter (\<lambda>(i, v). v = '' '') (zip [0..<length board] board))
        = filter (\<lambda>i. board ! i = '' '') [0..<length board]"
  proof (induction board rule: rev_induct)
    case Nil
    then show ?case by simp
  next
    case (snoc x xs)
    have "filter (\<lambda>i. (xs @ [x]) ! i = '' '') [0..<length xs]
          = filter (\<lambda>i. xs ! i = '' '') [0..<length xs]"
      by (rule filter_cong) (auto simp: nth_append)
    with snoc show ?case by simp
  qed
  then show ?thesis by (simp add: empty_cells_def enumerate_eq_zip)
qed

lemma set_empty_cells: "set (empty_cells board) = {i. i < length board \<and> board ! i = '' ''}"
  by (auto simp: empty_cells_filter)

lemma sorted_empty_cells: "sorted_wrt (<) (empty_cells board)"
  by (simp add: empty_cells_filter sorted_wrt_filter)

lemma max_key_from_first:
  "\<exists>ys zs. best # ms = ys @ max_key_from f best ms # zs
     \<and> (\<forall>y \<in> set ys. f y < f (max_key_from f best ms))
     \<and> (\<forall>z \<in> set zs. f z \<le> f (max_key_from f best ms))"
proof (induction ms arbitrary: best)
  case Nil
  have "[best] = [] @ best # []" by simp
  then show ?case by (metis empty_iff list.set(1) max_key_from.simps(1))
next
  case (Cons m ms)
  define b where "b = (if f best < f m then m else best)"
  define r where "r = max_key_from f b ms"
  have r_eq: "max_key_from f best (m # ms) = r"
    by (simp add: r_def b_def)
  from Cons.IH [of b] obtain ys zs where
    split: "b # ms = ys @ r # zs" and lo: "\<forall>y \<in> set ys. f y < f r"
    and hi: "\<forall>z \<in> set zs. f z \<le> f r"
    unfolding r_def by blast
  have "b \<in> set (ys @ r # zs)" using split by (metis list.set_intros(1))
  then have ge: "f b \<le> f r" using lo hi by auto
  have "\<exists>ys' zs'. best # m # ms = ys' @ r # zs'
          \<and> (\<forall>y \<in> set ys'. f y < f r) \<and> (\<forall>z \<in> set zs'. f z \<le> f r)"
  proof (cases "f best < f m")
    case True
    then have "b = m" by (simp add: b_def)
    with split have "best # m # ms = (best # ys) @ r # zs" by simp
    moreover have "\<forall>y \<in> set (best # ys). f y < f r" using True ge lo \<open>b = m\<close> by auto
    ultimately show ?thesis using hi by blast
  next
    case False
    then have bb: "b = best" by (simp add: b_def)
    show ?thesis
    proof (cases ys)
      case Nil
      with split bb have "r = best" and "zs = ms" by simp_all
      then have "best # m # ms = [] @ r # (m # ms)" by simp
      moreover have "\<forall>z \<in> set (m # ms). f z \<le> f r"
        using \<open>r = best\<close> \<open>zs = ms\<close> False hi by auto
      ultimately show ?thesis by (metis empty_iff list.set(1))
    next
      case (Cons y ys')
      with split bb have "y = best" and "ms = ys' @ r # zs" by simp_all
      then have "best # m # ms = (best # m # ys') @ r # zs" by simp
      moreover have "\<forall>y \<in> set (best # m # ys'). f y < f r"
        using Cons \<open>y = best\<close> False lo by auto
      ultimately show ?thesis using hi by blast
    qed
  qed
  then show ?case unfolding r_eq .
qed

lemma py_max_key_sorted:
  fixes xs :: "nat list"
  assumes "sorted_wrt (<) xs" and "xs \<noteq> []"
  shows "\<exists>best. py_max_key f xs = Inr best \<and> best \<in> set xs
           \<and> (\<forall>m \<in> set xs. f m \<le> f best)
           \<and> (\<forall>m \<in> set xs. m < best \<longrightarrow> f m < f best)
           \<and> (\<forall>m \<in> set xs. f m = f best \<longrightarrow> best \<le> m)"
proof -
  from assms(2) obtain x ms where xs: "xs = x # ms" by (cases xs) auto
  let ?r = "max_key_from f x ms"
  from max_key_from_first [of x ms f] obtain ys zs where
    split: "x # ms = ys @ ?r # zs" and lo: "\<forall>y \<in> set ys. f y < f ?r" and hi: "\<forall>z \<in> set zs. f z \<le> f ?r"
    by blast
  have s: "sorted_wrt (<) (ys @ ?r # zs)" using assms(1) xs split by simp
  then have before: "\<forall>y \<in> set ys. y < ?r" and after: "\<forall>z \<in> set zs. ?r < z"
    by (auto simp: sorted_wrt_append)
  have "set xs = set (ys @ ?r # zs)" using xs split by simp
  then have mem: "set xs = set ys \<union> {?r} \<union> set zs" by simp
  have "py_max_key f xs = Inr ?r" by (simp add: py_max_key_def xs)
  moreover have "?r \<in> set xs" using mem by simp
  moreover have "\<forall>m \<in> set xs. f m \<le> f ?r" using mem lo hi by auto
  moreover have "\<forall>m \<in> set xs. m < ?r \<longrightarrow> f m < f ?r" using mem lo after by auto
  moreover have "\<forall>m \<in> set xs. f m = f ?r \<longrightarrow> ?r \<le> m" using mem lo after by auto
  ultimately show ?thesis by blast
qed

lemma defaultdict_getitem_value:
  "dict_get (snd (defaultdict_getitem tbl k)) act 0 = table_value tbl k act"
  by (simp add: defaultdict_getitem_def table_value_def dict_get_def split: option.splits)

text \<open>
  Claim C2. On every board with at least one Empty cell, \<open>choose_action\<close> with
  \<open>explore=False\<close> returns an Empty cell whose value under the encoded state (absent
  entries read as 0) is greatest among the Empty cells, and every Empty cell of lower
  index has a strictly smaller value: ties go to the first maximising move in ascending
  order. When all these values are 0 it is the lowest-index Empty cell.
\<close>

theorem choose_action_greedy:
  assumes "\<exists>i < length board. board ! i = '' ''"
  shows "\<exists>best. snd (choose_action a board player False rnd) = Inr (best, encode_state board player)
           \<and> best < length board \<and> board ! best = '' ''
           \<and> (\<forall>m < length board. board ! m = '' '' \<longrightarrow>
                 table_value (q a) (Some (encode_state board player)) m
                   \<le> table_value (q a) (Some (encode_state board player)) best)
           \<and> (\<forall>m < best. board ! m = '' '' \<longrightarrow>
                 table_value (q a) (Some (encode_state board player)) m
                   < table_value (q a) (Some (encode_state board player)) best)
           \<and> ((\<forall>m < length board. board ! m = '' '' \<longrightarrow>
                   table_value (q a) (Some (encode_state board player)) m = 0) \<longrightarrow>
                (\<forall>m < best. board ! m \<noteq> '' ''))"
proof -
  let ?st = "encode_state board player"
  let ?f = "\<lambda>m. dict_get (snd (defaultdict_getitem (q a) (Some ?st))) m 0"
  from assms obtain i where "i < length board" "board ! i = '' ''" by blast
  then have "i \<in> set (empty_cells board)" by (simp add: set_empty_cells)
  then have ne: "empty_cells board \<noteq> []" by auto
  from py_max_key_sorted [OF sorted_empty_cells ne, of ?f] obtain best where
    b: "py_max_key ?f (empty_cells board) = Inr best" "best \<in> set (empty_cells board)"
       "\<forall>m \<in> set (empty_cells board). ?f m \<le> ?f best"
       "\<forall>m \<in> set (empty_cells board). m < best \<longrightarrow> ?f m < ?f best"
    by blast
  have res: "snd (choose_action a board player False rnd) = Inr (best, ?st)"
    using b(1) by (simp add: choose_action_def Let_def case_prod_beta)
  have "best < length board \<and> board ! best = '' ''"
    using b(2) by (simp add: set_empty_cells)
  moreover have "\<forall>m < length board. board ! m = '' '' \<longrightarrow>
                 table_value (q a) (Some ?st) m \<le> table_value (q a) (Some ?st) best"
    using b(3) by (simp add: set_empty_cells defaultdict_getitem_value)
  moreover have lt: "\<forall>m < best. board ! m = '' '' \<longrightarrow>
                 table_value (q a) (Some ?st) m < table_value (q a) (Some ?st) best"
    using b(4) calculation(1) by (simp add: set_empty_cells defaultdict_getitem_value)
  moreover have "(\<forall>m < length board. board ! m = '' '' \<longrightarrow> table_value (q a) (Some ?st) m = 0) \<longrightarrow>
                (\<forall>m < best. board ! m \<noteq> '' '')"
    using lt calculation(1) by (metis less_irrefl order.strict_trans)
  ultimately show ?thesis using res by blast
qed

theorem choose_action_greedy_witness:
  "(\<exists>i < length [''X'', '' '', ''O'', '' '', '' '']. [''X'', '' '', ''O'', '' '', '' ''] ! i = '' '')
   \<and> snd (choose_action
            \<lparr>q = [(Some [''P'', ''_'', ''E'', ''_'', ''_''], [(4, 1/2), (3, 1/2), (1, 1/10)])],
             alpha = 2/10, gamma = 9/10, epsilon = 2/10\<rparr>
            [''X'', '' '', ''O'', '' '', '' ''] ''X'' False (0, 0))
       = Inr (3, [''P'', ''_'', ''E'', ''_'', ''_''])"
proof -
  have h: "\<exists>i < length [''X'', '' '', ''O'', '' '', '' '']. [''X'', '' '', ''O'', '' '', '' ''] ! i = '' ''"
    by (rule exI [of _ 1]) simp
  show ?thesis
    using h choose_action_greedy [OF h,
      of "\<lparr>q = [(Some [''P'', ''_'', ''E'', ''_'', ''_''], [(4, 1/2), (3, 1/2), (1, 1/10)])],
           alpha = 2/10, gamma = 9/10, epsilon = 2/10\<rparr>" "''X''" "(0, 0)"]
    by (simp add: choose_action_def encode_state_def empty_cells_def defaultdict_getitem_def
        py_max_key_def dict_get_def Let_def)
qed

section \<open>The temporal-difference update\<close>


lemma map_of_defaultdict_getitem:
  "map_of (fst (defaultdict_getitem tbl k)) k' =
     (if k' = k \<and> map_of tbl k = None then Some [] else map_of tbl k')"
  by (auto simp: defaultdict_getitem_def map_add_def split: option.splits)

lemma dict_get_defaultdict_getitem:
  "dict_get (fst (defaultdict_getitem tbl k)) k' [] = dict_get tbl k' []"
  by (simp add: dict_get_def map_of_defaultdict_getitem)

lemma table_value_defaultdict_getitem:
  "table_value (fst (defaultdict_getitem tbl k)) k' act = table_value tbl k' act"
  by (simp add: table_value_def dict_get_defaultdict_getitem)









lemma choose_action_explore:
  "explore \<and> fst rnd < epsilon a \<Longrightarrow> fst (choose_action a board player explore rnd) = a"
  by (simp add: choose_action_def Let_def)

lemma choose_action_exploit_agent:
  "\<not> (explore \<and> fst rnd < epsilon a) \<Longrightarrow>
   fst (choose_action a board player explore rnd)
     = a\<lparr>q := fst (defaultdict_getitem (q a) (Some (encode_state board player)))\<rparr>"
  by (auto simp: choose_action_def Let_def case_prod_beta)

text \<open>
  Claim C4, as stated, fails: on the greedy path \<open>choose_action\<close> reads \<open>self.q[state]\<close>,
  and the \<open>defaultdict\<close> inserts a state it does not hold. A fresh agent asked for a
  move on the empty board ends with a table of one key.
\<close>

theorem choose_action_creates_key_counterexample:
  "q (SelfPlayAgent_init (2/10) (9/10) (2/10)) = []
   \<and> q (fst (choose_action (SelfPlayAgent_init (2/10) (9/10) (2/10))
               ['' '', '' '', '' '', '' '', '' '', '' '', '' '', '' '', '' ''] ''X'' False (0, 0)))
     = [(Some [''_'', ''_'', ''_'', ''_'', ''_'', ''_'', ''_'', ''_'', ''_''], [])]
   \<and> snd (choose_action (SelfPlayAgent_init (2/10) (9/10) (2/10))
            ['' '', '' '', '' '', '' '', '' '', '' '', '' '', '' '', '' ''] ''X'' False (0, 0))
     = Inr (0, [''_'', ''_'', ''_'', ''_'', ''_'', ''_'', ''_'', ''_'', ''_''])"
  by (simp add: choose_action_def SelfPlayAgent_init_def encode_state_def empty_cells_def
      defaultdict_getitem_def py_max_key_def dict_get_def Let_def)

text \<open>
  Claim C4, amended. \<open>choose_action\<close> changes no value of the table and none of the
  agent's parameters: every state and action reads the same value after the call as
  before, and every key present keeps its dictionary. When the random branch is taken, or
  the encoded state is already a key, the table is unchanged; otherwise the only change
  is that the encoded state is added as a key with an empty dictionary.
\<close>

theorem choose_action_keeps_values:
  "alpha (fst (choose_action a board player explore rnd)) = alpha a
   \<and> gamma (fst (choose_action a board player explore rnd)) = gamma a
   \<and> epsilon (fst (choose_action a board player explore rnd)) = epsilon a
   \<and> (\<forall>k act. table_value (q (fst (choose_action a board player explore rnd))) k act
                 = table_value (q a) k act)
   \<and> (\<forall>k d. map_of (q a) k = Some d \<longrightarrow>
               map_of (q (fst (choose_action a board player explore rnd))) k = Some d)
   \<and> (\<forall>k d. map_of (q (fst (choose_action a board player explore rnd))) k = Some d \<longrightarrow>
               map_of (q a) k = Some d \<or> (k = Some (encode_state board player) \<and> d = []))
   \<and> (explore \<and> fst rnd < epsilon a \<longrightarrow> fst (choose_action a board player explore rnd) = a)
   \<and> (map_of (q a) (Some (encode_state board player)) \<noteq> None \<longrightarrow>
         fst (choose_action a board player explore rnd) = a)
   \<and> (\<not> (explore \<and> fst rnd < epsilon a) \<and> map_of (q a) (Some (encode_state board player)) = None
         \<longrightarrow> q (fst (choose_action a board player explore rnd))
               = q a @ [(Some (encode_state board player), [])])"
proof (cases "explore \<and> fst rnd < epsilon a")
  case True
  then have "fst (choose_action a board player explore rnd) = a"
    by (rule choose_action_explore)
  with True show ?thesis by simp
next
  case False
  let ?k = "Some (encode_state board player)"
  have a': "fst (choose_action a board player explore rnd)
              = a\<lparr>q := fst (defaultdict_getitem (q a) ?k)\<rparr>"
    using False by (rule choose_action_exploit_agent)
  show ?thesis
  proof (cases "map_of (q a) ?k")
    case None
    then have "fst (defaultdict_getitem (q a) ?k) = q a @ [(?k, [])]"
      by (simp add: defaultdict_getitem_def)
    with a' None False show ?thesis
      using table_value_defaultdict_getitem [of "q a" ?k]
            map_of_defaultdict_getitem [of "q a" ?k]
      by (auto split: if_splits)
  next
    case (Some d)
    then have "fst (defaultdict_getitem (q a) ?k) = q a"
      by (simp add: defaultdict_getitem_def)
    with a' have "fst (choose_action a board player explore rnd) = a" by simp
    with Some False show ?thesis by auto
  qed
qed

theorem choose_action_keeps_values_witness:
  "q (fst (choose_action \<lparr>q = [(Some [''P'', ''_''], [(1, 1/2)])], alpha = 2/10, gamma = 9/10, epsilon = 2/10\<rparr>
             [''X'', '' ''] ''X'' False (0, 0)))
     = [(Some [''P'', ''_''], [(1, 1/2)])]
   \<and> map_of [(Some [''P'', ''_''], [(1, 1/2 :: real)])] (Some (encode_state [''X'', '' ''] ''X'')) \<noteq> None
   \<and> q (fst (choose_action \<lparr>q = [(Some [''P'', ''_''], [(1, 1/2)])], alpha = 2/10, gamma = 9/10, epsilon = 2/10\<rparr>
             [''O'', '' ''] ''X'' False (0, 0)))
     = [(Some [''P'', ''_''], [(1, 1/2)]), (Some [''E'', ''_''], [])]
   \<and> q (fst (choose_action \<lparr>q = [(Some [''P'', ''_''], [(1, 1/2)])], alpha = 2/10, gamma = 9/10, epsilon = 2/10\<rparr>
             [''O'', '' ''] ''X'' True (1/10, 0)))
     = [(Some [''P'', ''_''], [(1, 1/2)])]"
  using choose_action_keeps_values
    [of "\<lparr>q = [(Some [''P'', ''_''], [(1, 1/2)])], alpha = 2/10, gamma = 9/10, epsilon = 2/10\<rparr>"
        "[''X'', '' '']" "''X''" False "(0, 0)"]
     choose_action_keeps_values
    [of "\<lparr>q = [(Some [''P'', ''_''], [(1, 1/2)])], alpha = 2/10, gamma = 9/10, epsilon = 2/10\<rparr>"
        "[''O'', '' '']" "''X''" False "(0, 0)"]
     choose_action_keeps_values
    [of "\<lparr>q = [(Some [''P'', ''_''], [(1, 1/2)])], alpha = 2/10, gamma = 9/10, epsilon = 2/10\<rparr>"
        "[''O'', '' '']" "''X''" True "(1/10, 0)"]
  by (simp add: encode_state_def)

section \<open>Persistence\<close>

lemma table_value_absent: "\<not> entry_present tbl k act \<Longrightarrow> table_value tbl k act = 0"
  by (simp add: entry_present_def table_value_def dict_get_def split: option.splits)

text \<open>
  Claim C9. \<open>load\<close> returns \<open>False\<close>, raises nothing and leaves the agent unchanged
  when no file exists at the path; when a file exists and deserialises, the table is
  replaced by the deserialised contents and \<open>True\<close> is returned; when deserialising
  raises, the error reaches the caller and the agent is unchanged.
\<close>

theorem load_cases:
  "(fs p = None \<longrightarrow> load pload fs a p = (a, Inr False))
   \<and> (\<forall>content data. fs p = Some content \<and> pload content = Inr data \<longrightarrow>
         load pload fs a p = (a\<lparr>q := data\<rparr>, Inr True))
   \<and> (\<forall>content e. fs p = Some content \<and> pload content = Inl e \<longrightarrow>
         load pload fs a p = (a, Inl e))"
  by (simp add: load_def)

theorem load_cases_witness:
  "load (\<lambda>c. if c = ''ok'' then Inr [(Some [''P''], [(0, 1/5)])] else Inl UnpicklingError)
        Map.empty (SelfPlayAgent_init (2/10) (9/10) (2/10)) ''q_table.pkl''
     = (SelfPlayAgent_init (2/10) (9/10) (2/10), Inr False)
   \<and> load (\<lambda>c. if c = ''ok'' then Inr [(Some [''P''], [(0, 1/5)])] else Inl UnpicklingError)
        [''q_table.pkl'' \<mapsto> ''ok''] (SelfPlayAgent_init (2/10) (9/10) (2/10)) ''q_table.pkl''
     = (\<lparr>q = [(Some [''P''], [(0, 1/5)])], alpha = 2/10, gamma = 9/10, epsilon = 2/10\<rparr>, Inr True)
   \<and> load (\<lambda>c. if c = ''ok'' then Inr [(Some [''P''], [(0, 1/5)])] else Inl UnpicklingError)
        [''q_table.pkl'' \<mapsto> ''junk''] (SelfPlayAgent_init (2/10) (9/10) (2/10)) ''q_table.pkl''
     = (SelfPlayAgent_init (2/10) (9/10) (2/10), Inl UnpicklingError)"
  using load_cases [of Map.empty "''q_table.pkl''"
      "\<lambda>c. if c = ''ok'' then Inr [(Some [''P''], [(0, 1/5)])] else Inl UnpicklingError"
      "SelfPlayAgent_init (2/10) (9/10) (2/10)"]
    load_cases [of "[''q_table.pkl'' \<mapsto> ''ok'']" "''q_table.pkl''"
      "\<lambda>c. if c = ''ok'' then Inr [(Some [''P''], [(0, 1/5)])] else Inl UnpicklingError"
      "SelfPlayAgent_init (2/10) (9/10) (2/10)"]
    load_cases [of "[''q_table.pkl'' \<mapsto> ''junk'']" "''q_table.pkl''"
      "\<lambda>c. if c = ''ok'' then Inr [(Some [''P''], [(0, 1/5)])] else Inl UnpicklingError"
      "SelfPlayAgent_init (2/10) (9/10) (2/10)"]
  by (simp add: SelfPlayAgent_init_def)

text \<open>
  Claim C8. For every table that \<open>pickle\<close> reads back as it was written, \<open>save\<close> to a
  path and then \<open>load\<close> from that path into a fresh agent returns \<open>True\<close> and yields a
  table with the same value for every state and action present at save time, and the
  value 0 for every pair not present.
\<close>

theorem save_load_roundtrip:
  assumes "pload (dump (q a)) = Inr (q a)"
  shows "\<exists>a'. load pload (save dump fs a p) (SelfPlayAgent_init al ga ep) p = (a', Inr True)
           \<and> q a' = q a \<and> alpha a' = al \<and> gamma a' = ga \<and> epsilon a' = ep
           \<and> (\<forall>k act. entry_present (q a) k act \<longrightarrow>
                 table_value (q a') k act = table_value (q a) k act)
           \<and> (\<forall>k act. \<not> entry_present (q a) k act \<longrightarrow> table_value (q a') k act = 0)"
proof -
  let ?a' = "(SelfPlayAgent_init al ga ep)\<lparr>q := q a\<rparr>"
  have "load pload (save dump fs a p) (SelfPlayAgent_init al ga ep) p = (?a', Inr True)"
    using assms by (simp add: load_def save_def)
  moreover have "q ?a' = q a \<and> alpha ?a' = al \<and> gamma ?a' = ga \<and> epsilon ?a' = ep"
    by (simp add: SelfPlayAgent_init_def)
  ultimately show ?thesis
    using table_value_absent by auto
qed

theorem save_load_roundtrip_witness:
  "Inr ((\<lambda>t. t) (q \<lparr>q = [(Some [''P''], [(0, 1/5)])], alpha = 2/10, gamma = 9/10, epsilon = 2/10\<rparr>))
     = (Inr (q \<lparr>q = [(Some [''P''], [(0, 1/5)])], alpha = 2/10, gamma = 9/10, epsilon = 2/10\<rparr>)
          :: py_error + table)
   \<and> entry_present [(Some [''P''], [(0, 1/5)])] (Some [''P'']) 0
   \<and> \<not> entry_present [(Some [''P''], [(0, 1/5)])] (Some [''P'']) 1
   \<and> load Inr
        (save (\<lambda>t. t) Map.empty
           \<lparr>q = [(Some [''P''], [(0, 1/5)])], alpha = 2/10, gamma = 9/10, epsilon = 2/10\<rparr>
           ''q_table.pkl'')
        (SelfPlayAgent_init (1/10) (1/2) (3/10)) ''q_table.pkl''
     = (\<lparr>q = [(Some [''P''], [(0, 1/5)])], alpha = 1/10, gamma = 1/2, epsilon = 3/10\<rparr>, Inr True)"
  using save_load_roundtrip
    [of Inr "\<lambda>t. t"
        "\<lparr>q = [(Some [''P''], [(0, 1/5)])], alpha = 2/10, gamma = 9/10, epsilon = 2/10\<rparr>"
        Map.empty "''q_table.pkl''" "1/10" "1/2" "3/10"]
  by (auto simp: entry_present_def SelfPlayAgent_init_def load_def save_def)

section \<open>The training loop\<close>

lemma play_episode_body:
  "play_episode ops rnd a board player t trace =
     (case loop_body ops a board player (rnd t) of
        Inl e \<Rightarrow> Some (Inl e)
      | Inr (a', tr) \<Rightarrow>
          if tr_done tr then Some (Inr (a', Suc t, trace @ [tr]))
          else play_episode ops rnd a' (tr_board tr) (if player = ''X'' then ''O'' else ''X'')
                 (Suc t) (trace @ [tr]))"
proof -
  obtain a1 r where ca: "choose_action a board player True (rnd t) = (a1, r)"
    by (cases "choose_action a board player True (rnd t)")
  show ?thesis
  proof (cases r)
    case (Inl e)
    with ca show ?thesis
      by (subst play_episode.simps) (simp add: loop_body_def)
  next
    case (Inr p)
    obtain act state where p: "p = (act, state)" by (cases p)
    show ?thesis
    proof (cases "set_cell board act player")
      case (Inl e)
      with ca Inr p show ?thesis
        by (subst play_episode.simps) (simp add: loop_body_def)
    next
      case sc: (Inr board')
      show ?thesis
      proof (cases "check_winner board'")
        case (Inl e)
        with ca Inr p sc show ?thesis
          by (subst play_episode.simps) (simp add: loop_body_def)
      next
        case cw: (Inr winner)
        show ?thesis
        proof (cases "py_bool winner \<or> is_full board'")
          case True
          with ca Inr p sc cw show ?thesis
            by (subst play_episode.simps) (simp add: loop_body_def)
        next
          case False
          with ca Inr p sc cw show ?thesis
            by (subst play_episode.simps) (simp add: loop_body_def Let_def)
        qed
      qed
    qed
  qed
qed

lemma length_empty_cells:
  "length (empty_cells board) = length (filter (\<lambda>v. v = '' '') board)"
proof -
  have "filter (\<lambda>v. v = '' '') (map snd (enumerate 0 board))
          = map snd (filter ((\<lambda>v. v = '' '') \<circ> snd) (enumerate 0 board))"
    by (rule filter_map)
  moreover have "(\<lambda>v. v = '' '') \<circ> snd = (\<lambda>(i :: nat, v). v = '' '')"
    by (rule ext) (simp add: case_prod_beta)
  ultimately have "length (filter (\<lambda>v. v = '' '') board)
          = length (filter (\<lambda>(i :: nat, v). v = '' '') (enumerate 0 board))"
    by (metis length_map map_snd_enumerate)
  then show ?thesis by (simp add: empty_cells_def)
qed

lemma is_full_iff_empty_cells: "is_full board \<longleftrightarrow> empty_cells board = []"
  by (auto simp: is_full_def list_all_iff empty_cells_filter filter_empty_conv in_set_conv_nth)

lemma length_empty_cells_update:
  assumes "i < length board" and "board ! i = '' ''" and "p \<noteq> '' ''"
  shows "Suc (length (empty_cells (board[i := p]))) = length (empty_cells board)"
proof -
  have "board = take i board @ board ! i # drop (Suc i) board"
    using assms(1) by (rule id_take_nth_drop)
  then have "length (filter (\<lambda>v. v = '' '') board)
      = length (filter (\<lambda>v. v = '' '') (take i board @ board ! i # drop (Suc i) board))"
    by simp
  moreover have "board[i := p] = take i board @ p # drop (Suc i) board"
    using assms(1) by (rule upd_conv_take_nth_drop)
  ultimately show ?thesis
    using assms(2,3) by (simp add: length_empty_cells)
qed

lemma max_key_from_mem: "max_key_from f best ms \<in> set (best # ms)"
  by (induction ms arbitrary: best) auto

lemma choose_action_legal:
  assumes "empty_cells board \<noteq> []"
  shows "\<exists>act. snd (choose_action a board player explore rd) = Inr (act, encode_state board player)
           \<and> act \<in> set (empty_cells board)"
proof (cases "explore \<and> fst rd < epsilon a")
  case True
  have "empty_cells board ! (snd rd mod length (empty_cells board)) \<in> set (empty_cells board)"
    using assms by simp
  with True assms show ?thesis
    by (simp add: choose_action_def Let_def random_choice_def)
next
  case False
  from assms obtain m ms where ms: "empty_cells board = m # ms"
    by (cases "empty_cells board") auto
  have "max_key_from f m ms \<in> set (empty_cells board)" for f
    using max_key_from_mem [of f m ms] ms by simp
  with False ms show ?thesis
    by (auto simp: choose_action_def Let_def case_prod_beta py_max_key_def)
qed

lemma one_mark_per_cell_update:
  "one_mark_per_cell board \<Longrightarrow> p = ''X'' \<or> p = ''O'' \<Longrightarrow> one_mark_per_cell (board[i := p])"
  by (auto simp: one_mark_per_cell_def list_all_iff dest: set_update_subset_insert [THEN subsetD])

lemma check_winner_mark_in_board:
  assumes "length board = 9" and "check_winner board = Inr (Some m)"
  shows "m \<in> set board"
proof (cases "find (line_complete board) WIN_LINES")
  case None
  with assms show ?thesis by (simp add: check_winner_find)
next
  case (Some l)
  then have "l \<in> set WIN_LINES" by (auto simp: find_Some_iff)
  then have "line_in_range board l" using assms(1) WIN_LINES_in_range by blast
  then have "fst l < length board" by (cases l) (simp add: line_in_range_def)
  moreover have "m = board ! fst l" using assms Some by (simp add: check_winner_find)
  ultimately show ?thesis by simp
qed

lemma py_bool_winner:
  assumes "one_mark_per_cell board" and "check_winner board = Inr w"
  shows "py_bool w \<longleftrightarrow> w \<noteq> None"
proof (cases w)
  case None
  then show ?thesis by (simp add: py_bool_def)
next
  case (Some m)
  with assms have "m \<in> set board"
    by (simp add: one_mark_per_cell_def check_winner_mark_in_board)
  with assms(1) have "m \<noteq> []" by (auto simp: one_mark_per_cell_def list_all_iff)
  with Some show ?thesis by (simp add: py_bool_def)
qed

lemma loop_body_ok:
  assumes "one_mark_per_cell board" and "player = ''X'' \<or> player = ''O''" and "\<not> is_full board"
  shows "\<exists>a' tr. loop_body ops a board player rd = Inr (a', tr)
           \<and> transition_ok tr \<and> tr_before tr = board \<and> tr_mover tr = player"
proof -
  have len: "length board = 9" using assms(1) by (simp add: one_mark_per_cell_def)
  have ne: "empty_cells board \<noteq> []" using assms(3) by (simp add: is_full_iff_empty_cells)
  from choose_action_legal [OF ne, of a player True rd] obtain act where
    act: "snd (choose_action a board player True rd) = Inr (act, encode_state board player)"
    and mem: "act \<in> set (empty_cells board)" by blast
  obtain a1 where ca: "choose_action a board player True rd = (a1, Inr (act, encode_state board player))"
    using act by (cases "choose_action a board player True rd") simp
  have lt: "act < length board" and emp: "board ! act = '' ''"
    using mem by (simp_all add: set_empty_cells)
  let ?b = "board[act := player]"
  have sc: "set_cell board act player = Inr ?b" using lt by (simp add: set_cell_def)
  have ok': "one_mark_per_cell ?b" using assms(1,2) by (rule one_mark_per_cell_update)
  then have "length ?b = 9" by (simp add: one_mark_per_cell_def)
  then obtain w where cw: "check_winner ?b = Inr w" by (simp add: check_winner_find)
  have pb: "py_bool w \<longleftrightarrow> w \<noteq> None" using ok' cw by (rule py_bool_winner)
  have pl: "player \<noteq> '' ''" using assms(2) by auto
  have cnt: "Suc (length (empty_cells ?b)) = length (empty_cells board)"
    using lt emp pl by (rule length_empty_cells_update)
  show ?thesis
  proof (cases "w \<noteq> None \<or> is_full ?b")
    case True
    then show ?thesis
      using ca sc cw pb assms(1,2) lt len emp cnt
      by (simp add: loop_body_def transition_ok_def other_player_def)
  next
    case False
    then show ?thesis
      using ca sc cw pb assms(1,2) lt len emp cnt
      by (simp add: loop_body_def transition_ok_def other_player_def Let_def)
  qed
qed

lemma transition_ok_count:
  "transition_ok tr \<Longrightarrow>
   Suc (length (empty_cells (tr_board tr))) = length (empty_cells (tr_before tr))"
  unfolding transition_ok_def by blast

lemma transition_ok_board:
  "transition_ok tr \<Longrightarrow> tr_board tr = (tr_before tr)[tr_action tr := tr_mover tr]"
  unfolding transition_ok_def by blast

lemma transition_ok_not_done: "transition_ok tr \<Longrightarrow> \<not> tr_done tr \<Longrightarrow> \<not> is_full (tr_board tr)"
  by (auto simp: transition_ok_def)

lemma play_episode_spec:
  assumes "one_mark_per_cell board" and "player = ''X'' \<or> player = ''O''" and "\<not> is_full board"
  shows "\<exists>a' new. play_episode ops rnd a board player t trace
                    = Some (Inr (a', t + length new, trace @ new))
           \<and> new \<noteq> [] \<and> length new \<le> length (empty_cells board)
           \<and> trace_from board player new"
  using assms
proof (induction "length (empty_cells board)" arbitrary: a board player t trace rule: less_induct)
  case less
  from loop_body_ok [OF less.prems, of ops a "rnd t"] obtain a1 tr where
    lb: "loop_body ops a board player (rnd t) = Inr (a1, tr)" and ok: "transition_ok tr"
    and before: "tr_before tr = board" and mover: "tr_mover tr = player"
    by blast
  have cnt: "Suc (length (empty_cells (tr_board tr))) = length (empty_cells board)"
    using transition_ok_count [OF ok] before by simp
  show ?case
  proof (cases "tr_done tr")
    case True
    have "play_episode ops rnd a board player t trace = Some (Inr (a1, t + length [tr], trace @ [tr]))"
      using lb True by (subst play_episode_body) simp
    moreover have "length [tr] \<le> length (empty_cells board)" using cnt by simp
    moreover have "trace_from board player [tr]" using ok before mover True by simp
    ultimately show ?thesis by blast
  next
    case False
    let ?b = "tr_board tr"
    let ?p = "other_player player"
    have b: "?b = board[tr_action tr := player]"
      using transition_ok_board [OF ok] before mover by simp
    have ok_b: "one_mark_per_cell ?b"
      unfolding b using less.prems(1,2) by (rule one_mark_per_cell_update)
    have ok_p: "?p = ''X'' \<or> ?p = ''O''" by (simp add: other_player_def)
    have nf: "\<not> is_full ?b" using ok False by (rule transition_ok_not_done)
    have smaller: "length (empty_cells ?b) < length (empty_cells board)" using cnt by simp
    from less.hyps [OF smaller ok_b ok_p nf, of a1 "Suc t" "trace @ [tr]"] obtain a' new where
      run: "play_episode ops rnd a1 ?b ?p (Suc t) (trace @ [tr])
              = Some (Inr (a', Suc t + length new, (trace @ [tr]) @ new))"
      and ne: "new \<noteq> []" and le: "length new \<le> length (empty_cells ?b)"
      and tf: "trace_from ?b ?p new"
      by blast
    have "play_episode ops rnd a board player t trace
            = Some (Inr (a', t + length (tr # new), trace @ (tr # new)))"
      using lb False run by (subst play_episode_body) (simp add: other_player_def)
    moreover have "length (tr # new) \<le> length (empty_cells board)" using le cnt by simp
    moreover have "trace_from board player (tr # new)"
      using ok before mover False ne tf by simp
    ultimately show ?thesis by blast
  qed
qed

lemma empty_board_ok:
  "one_mark_per_cell (replicate 9 '' '')" "\<not> is_full (replicate 9 '' '')"
  "length (empty_cells (replicate 9 '' '')) = 9"
  by (simp_all add: one_mark_per_cell_def is_full_def list_all_iff length_empty_cells)

lemma train_from_spec:
  "\<exists>a' t' new. train_from ops rnd n episode a t traces = Some (Inr (a', t', traces @ new))
     \<and> length new = n \<and> (\<forall>j < n. episode_ok (episode + j) (new ! j))"
proof (induction n arbitrary: episode a t traces)
  case 0
  show ?case by simp
next
  case (Suc n)
  let ?p = "if episode mod 2 = 0 then ''X'' else ''O''"
  have p: "?p = ''X'' \<or> ?p = ''O''" by simp
  from play_episode_spec [OF empty_board_ok(1) p empty_board_ok(2), of ops rnd a t "[]"]
  obtain a1 trace where
    run: "play_episode ops rnd a (replicate 9 '' '') ?p t [] = Some (Inr (a1, t + length trace, trace))"
    and ne: "trace \<noteq> []" and le: "length trace \<le> 9"
    and tf: "trace_from (replicate 9 '' '') ?p trace"
    by (auto simp: empty_board_ok(3))
  have first: "episode_ok episode trace" using ne le tf by (simp add: episode_ok_def)
  from Suc.IH [of "Suc episode" a1 "t + length trace" "traces @ [trace]"] obtain a' t' new where
    rest: "train_from ops rnd n (Suc episode) a1 (t + length trace) (traces @ [trace])
             = Some (Inr (a', t', (traces @ [trace]) @ new))"
    and len: "length new = n" and oks: "\<forall>j < n. episode_ok (Suc episode + j) (new ! j)"
    by blast
  have "train_from ops rnd (Suc n) episode a t traces = Some (Inr (a', t', traces @ (trace # new)))"
    using run rest by simp
  moreover have "length (trace # new) = Suc n" using len by simp
  moreover have "\<forall>j < Suc n. episode_ok (episode + j) ((trace # new) ! j)"
  proof (intro allI impI)
    fix j assume "j < Suc n"
    then show "episode_ok (episode + j) ((trace # new) ! j)"
      using first oks by (cases j) auto
  qed
  ultimately show ?case by blast
qed

lemma replicate_9: "replicate 9 c = [c, c, c, c, c, c, c, c, c]"
  by (simp add: eval_nat_numeral)

lemmas run_defs = choose_action_def random_choice_def empty_cells_def encode_state_def
  set_cell_def check_winner_def WIN_LINES_def get_cell_def py_bool_def is_full_def update_def
  defaultdict_getitem_def dict_get_def Let_def SelfPlayAgent_init_def py_max_key_def

lemma example_run:
  "train exact_ops example_rnd (SelfPlayAgent_init (1/4) (1/2) (1/4)) 1
     = Some (Inr (example_agent, 5, [example_trace]))"
  unfolding example_agent_def example_trace_def
  apply (simp add: train_def replicate_9)
  apply (subst play_episode.simps, simp add: run_defs example_rnd_def exact_ops_def)+
  done

lemma trace_from_all_ok: "trace_from board player trace \<Longrightarrow> tr \<in> set trace \<Longrightarrow> transition_ok tr"
  by (induction trace arbitrary: board player) auto

lemma trace_from_hd:
  "trace_from board player trace \<Longrightarrow> trace \<noteq> [] \<Longrightarrow>
   tr_before (hd trace) = board \<and> tr_mover (hd trace) = player"
  by (cases trace) auto

lemma trace_from_last: "trace_from board player trace \<Longrightarrow> trace \<noteq> [] \<Longrightarrow> tr_done (last trace)"
  by (induction trace arbitrary: board player) auto

lemma train_spec:
  "\<exists>a' t' traces. train ops rnd a episodes = Some (Inr (a', t', traces))
     \<and> length traces = nat episodes \<and> (\<forall>j < length traces. episode_ok j (traces ! j))"
  using train_from_spec [of ops rnd "nat episodes" 0 a 0 "[]"]
  by (auto simp: train_def)

lemma transition_ok_move:
  assumes "transition_ok tr"
  shows "tr_action tr \<in> set (empty_cells (tr_before tr))
         \<and> tr_board tr = (tr_before tr)[tr_action tr := tr_mover tr]
         \<and> length (empty_cells (tr_board tr)) < length (empty_cells (tr_before tr))"
proof -
  have "length (tr_before tr) = 9" "tr_action tr < 9" "tr_before tr ! tr_action tr = '' ''"
    using assms unfolding transition_ok_def one_mark_per_cell_def by blast+
  then have "tr_action tr \<in> set (empty_cells (tr_before tr))"
    by (simp add: set_empty_cells)
  then show ?thesis
    using transition_ok_board [OF assms] transition_ok_count [OF assms] by simp
qed

lemma transition_ok_done_reward:
  assumes "transition_ok tr"
  shows "\<exists>w. check_winner (tr_board tr) = Inr w
           \<and> tr_done tr = (w \<noteq> None \<or> is_full (tr_board tr))
           \<and> tr_reward tr = (if w = Some (tr_mover tr) then 1 else 0)"
  using assms unfolding transition_ok_def by blast

text \<open>
  Claim C10. For every episode count \<open>train\<close> returns, without raising, after
  \<open>nat episodes\<close> episodes. The loop of each episode ends after at least 1 and at most 9
  passes, with \<open>done\<close>; in each pass the action is one of the Empty cells of the board,
  the mover's mark is placed there, and the number of Empty cells strictly decreases.
\<close>

theorem train_terminates:
  "\<exists>a' t' traces. train ops rnd a episodes = Some (Inr (a', t', traces))
     \<and> length traces = nat episodes
     \<and> (\<forall>trace \<in> set traces.
           trace \<noteq> [] \<and> length trace \<le> 9 \<and> tr_done (last trace)
           \<and> (\<forall>tr \<in> set trace.
                 tr_action tr \<in> set (empty_cells (tr_before tr))
                 \<and> tr_board tr = (tr_before tr)[tr_action tr := tr_mover tr]
                 \<and> length (empty_cells (tr_board tr)) < length (empty_cells (tr_before tr))))"
proof -
  from train_spec [of ops rnd a episodes] obtain a' t' traces where
    run: "train ops rnd a episodes = Some (Inr (a', t', traces))"
    and len: "length traces = nat episodes"
    and oks: "\<forall>j < length traces. episode_ok j (traces ! j)"
    by blast
  have "trace \<noteq> [] \<and> length trace \<le> 9 \<and> tr_done (last trace)
           \<and> (\<forall>tr \<in> set trace.
                 tr_action tr \<in> set (empty_cells (tr_before tr))
                 \<and> tr_board tr = (tr_before tr)[tr_action tr := tr_mover tr]
                 \<and> length (empty_cells (tr_board tr)) < length (empty_cells (tr_before tr)))"
    if "trace \<in> set traces" for trace
  proof -
    from that obtain j where "j < length traces" "trace = traces ! j"
      by (auto simp: in_set_conv_nth)
    with oks have ok: "episode_ok j trace" by simp
    then have ne: "trace \<noteq> []" and le: "length trace \<le> 9"
      and tf: "trace_from (replicate 9 '' '') (if j mod 2 = 0 then ''X'' else ''O'') trace"
      by (simp_all add: episode_ok_def)
    have "tr_done (last trace)" using tf ne by (rule trace_from_last)
    moreover have "\<forall>tr \<in> set trace.
                 tr_action tr \<in> set (empty_cells (tr_before tr))
                 \<and> tr_board tr = (tr_before tr)[tr_action tr := tr_mover tr]
                 \<and> length (empty_cells (tr_board tr)) < length (empty_cells (tr_before tr))"
      using trace_from_all_ok [OF tf] transition_ok_move by blast
    ultimately show ?thesis using ne le by blast
  qed
  with run len show ?thesis by blast
qed

theorem train_terminates_witness:
  "train exact_ops example_rnd (SelfPlayAgent_init (1/4) (1/2) (1/4)) 1
     = Some (Inr (example_agent, 5, [example_trace]))
   \<and> length [example_trace] = nat 1
   \<and> example_trace \<in> set [example_trace]
   \<and> length example_trace = 5
   \<and> tr_done (last example_trace)
   \<and> map tr_action example_trace = [0, 3, 1, 4, 2]
   \<and> map (\<lambda>tr. length (empty_cells (tr_before tr))) example_trace = [9, 8, 7, 6, 5]
   \<and> map (\<lambda>tr. length (empty_cells (tr_board tr))) example_trace = [8, 7, 6, 5, 4]"
  using train_terminates [of exact_ops example_rnd "SelfPlayAgent_init (1/4) (1/2) (1/4)" 1]
    example_run
  by (simp add: example_trace_def empty_cells_def)

text \<open>
  Claim C6. In every episode of \<open>train\<close> the board starts empty and the first mover is X
  exactly when the episode index is even (O otherwise); for every transition recorded,
  \<open>done\<close> holds exactly when \<open>check_winner\<close> finds a winner on the board after the
  move or that board is full, and the reward is 1 when the winner is the mover and 0
  otherwise.
\<close>

theorem train_first_mover_done_reward:
  assumes "train ops rnd a episodes = Some (Inr (a', t', traces))" and "i < length traces"
  shows "traces ! i \<noteq> []
         \<and> tr_before (hd (traces ! i)) = replicate 9 '' ''
         \<and> (tr_mover (hd (traces ! i)) = ''X'' \<longleftrightarrow> i mod 2 = 0)
         \<and> (tr_mover (hd (traces ! i)) = ''O'' \<longleftrightarrow> i mod 2 \<noteq> 0)
         \<and> (\<forall>tr \<in> set (traces ! i).
               \<exists>w. check_winner (tr_board tr) = Inr w
                 \<and> tr_done tr = (w \<noteq> None \<or> is_full (tr_board tr))
                 \<and> tr_reward tr = (if w = Some (tr_mover tr) then 1 else 0))"
proof -
  from train_spec [of ops rnd a episodes] assms(1)
  have "\<forall>j < length traces. episode_ok j (traces ! j)" by auto
  with assms(2) have ok: "episode_ok i (traces ! i)" by simp
  then have ne: "traces ! i \<noteq> []"
    and tf: "trace_from (replicate 9 '' '') (if i mod 2 = 0 then ''X'' else ''O'') (traces ! i)"
    by (simp_all add: episode_ok_def)
  have hd: "tr_before (hd (traces ! i)) = replicate 9 '' ''
            \<and> tr_mover (hd (traces ! i)) = (if i mod 2 = 0 then ''X'' else ''O'')"
    using tf ne by (rule trace_from_hd)
  have "\<forall>tr \<in> set (traces ! i).
               \<exists>w. check_winner (tr_board tr) = Inr w
                 \<and> tr_done tr = (w \<noteq> None \<or> is_full (tr_board tr))
                 \<and> tr_reward tr = (if w = Some (tr_mover tr) then 1 else 0)"
    using trace_from_all_ok [OF tf] transition_ok_done_reward by blast
  with ne hd show ?thesis by simp
qed

theorem train_first_mover_done_reward_witness:
  "train exact_ops example_rnd (SelfPlayAgent_init (1/4) (1/2) (1/4)) 1
     = Some (Inr (example_agent, 5, [example_trace]))
   \<and> (0::nat) < length [example_trace]
   \<and> tr_mover (hd ([example_trace] ! 0)) = ''X''
   \<and> map tr_mover example_trace = [''X'', ''O'', ''X'', ''O'', ''X'']
   \<and> map tr_done example_trace = [False, False, False, False, True]
   \<and> map tr_reward example_trace = [0, 0, 0, 0, 1]
   \<and> map (\<lambda>tr. check_winner (tr_board tr)) example_trace
       = [Inr None, Inr None, Inr None, Inr None, Inr (Some ''X'')]
   \<and> map (\<lambda>tr. is_full (tr_board tr)) example_trace = [False, False, False, False, False]"
proof -
  have h1: "train exact_ops example_rnd (SelfPlayAgent_init (1/4) (1/2) (1/4)) 1
     = Some (Inr (example_agent, 5, [example_trace]))" by (rule example_run)
  have h2: "(0::nat) < length [example_trace]" by simp
  show ?thesis
    using h1 h2 train_first_mover_done_reward [OF h1 h2]
    by (simp add: example_trace_def check_winner_def WIN_LINES_def get_cell_def is_full_def)
qed

end
